theory Spec2Isabelle
  imports Main "HOL-Library.Sublist"
begin

section \<open>Go values\<close>

text \<open>
  The fragment of Go's types and values that the code inspects. A struct type carries its
  name and its fields (name, tag, type); a recursive declaration is unfolded as deep as the
  code looks (the fields of the owner type and of the related type). A tag is the list of
  its key/value pairs. Go's \<open>int\<close> is modelled by \<open>int\<close>: the code does no arithmetic on it
  beyond \<open>len\<close>.
\<close>

datatype Type =
    TInt | TString | TBool | TInterface
  | TPtr Type | TSlice Type | TArray nat Type
  | TStruct string "StructField list"
and StructField =
    StructField (Name: string) (Tag: "(string \<times> string) list") (FType: Type)

type_synonym addr = nat

text \<open>
  A value: a pointer is nil or an address, a slice is nil or a sequence, an interface is
  nil or a dynamic type with a value (\<open>interface{}\<close> is \<open>any\<close>).
\<close>

datatype Value =
    VInt int | VString string | VBool bool
  | VIface "(Type \<times> Value) option"
  | VPtr "addr option"
  | VSlice "Value list option"
  | VArray "Value list"
  | VStruct "Value list"

type_synonym any = "(Type \<times> Value) option"

datatype panic =
    IndexOutOfRange       \<comment> \<open>runtime error: index out of range\<close>
  | NilMapAssignment      \<comment> \<open>assignment to entry in nil map\<close>
  | NilDereference        \<comment> \<open>invalid memory address or nil pointer dereference\<close>
  | UnhashableKey         \<comment> \<open>runtime error: hash of unhashable type\<close>
  | ReflectPanic          \<comment> \<open>a panic raised inside package reflect\<close>
  | Panic string          \<comment> \<open>an explicit \<open>panic(msg)\<close> of the code\<close>

text \<open>
  A Go map held in one place only: nil or a finite mapping. Reading a nil map finds
  nothing; writing to it panics.
\<close>

type_synonym ('k, 'v) gomap = "('k \<rightharpoonup> 'v) option"

definition map_get :: "('k, 'v) gomap \<Rightarrow> 'k \<Rightarrow> 'v option" where
  "map_get m k = (case m of None \<Rightarrow> None | Some f \<Rightarrow> f k)"

definition map_put :: "('k, 'v) gomap \<Rightarrow> 'k \<Rightarrow> 'v \<Rightarrow> panic + ('k, 'v) gomap" where
  "map_put m k v = (case m of None \<Rightarrow> Inl NilMapAssignment | Some f \<Rightarrow> Inr (Some (f(k \<mapsto> v))))"

text \<open>Indexing a slice with a Go \<open>int\<close>: out of range panics.\<close>

definition in_range :: "int \<Rightarrow> 'a list \<Rightarrow> bool" where
  "in_range i xs = (0 \<le> i \<and> i < int (length xs))"

section \<open>Package c\<close>

text \<open>
  Modelled from the spec: package \<open>c\<close> (conditions, joins and orders), which query.go
  imports and which is not among the source files. A condition is a tree of conjunctions
  and disjunctions over comparisons of operands; an operand is an identifier \<open>c.I\<close> or a
  plain value.
\<close>

datatype Operand = I string | Lit any

datatype Condition =
    ConditionAnd "Condition list"
  | ConditionOr "Condition list"
  | ConditionEq Operand Operand

text \<open>Modelled from the spec: \<open>c.I\<close>, the identifier of a column.\<close>

definition c_I :: "string \<Rightarrow> Operand" where
  "c_I name = I name"

text \<open>Modelled from the spec: \<open>c.Eq\<close>, the equality of two operands.\<close>

definition c_Eq :: "Operand \<Rightarrow> Operand \<Rightarrow> Condition" where
  "c_Eq l r = ConditionEq l r"

text \<open>Modelled from the spec: \<open>c.And\<close>, the conjunction of the conditions given.\<close>

definition c_And :: "Condition list \<Rightarrow> Condition" where
  "c_And inner = ConditionAnd inner"


text \<open>
  Modelled from the spec: the method \<open>Condition.And\<close>, which conjoins the receiver with the
  conditions given.
\<close>

definition Condition_And :: "Condition \<Rightarrow> Condition list \<Rightarrow> Condition" where
  "Condition_And cond condition = ConditionAnd (cond # condition)"


text \<open>Modelled from the spec: the zero \<open>Condition\<close>, which constrains nothing.\<close>

definition Condition_zero :: Condition where
  "Condition_zero = ConditionAnd []"

text \<open>
  The truth of a condition on a row; \<open>row l r\<close> says whether the comparison of \<open>l\<close> with \<open>r\<close>
  holds there. Two conditions are logically equivalent when they hold on the same rows.
\<close>

fun holds :: "(Operand \<Rightarrow> Operand \<Rightarrow> bool) \<Rightarrow> Condition \<Rightarrow> bool" where
  "holds row (ConditionAnd cs) = list_all (holds row) cs"
| "holds row (ConditionOr cs) = list_ex (holds row) cs"
| "holds row (ConditionEq l r) = row l r"


text \<open>Modelled from the spec: \<open>c.Join\<close>, as query.go builds it.\<close>

record Join =
  Mode :: string
  Collection :: string
  Condition :: Condition

section \<open>query.go: the query builder\<close>

text \<open>
  Modelled from the spec: \<open>Repo\<close>, which is not declared in the source files; the builder
  reads one thing of it, whether a transaction is active. The order type of package \<open>c\<close>
  is the parameter \<open>'o\<close>.
\<close>

record Repo =
  inTransaction :: bool

text \<open>
  Every builder method has a value receiver: it works on a copy of the \<open>Query\<close> and
  returns the copy. The slices are lists here; the methods assign them or append to them,
  and neither changes what the receiver reads in its own slice. The field \<open>Changes\<close> is a
  Go map, which is a reference: a copy of a \<open>Query\<close> shares it. The maps live in a heap; the
  field holds nil or an address.
\<close>

record mapheap =
  cells :: "addr \<Rightarrow> (string \<rightharpoonup> any)"
  next_free :: addr

definition make_map :: "mapheap \<Rightarrow> addr \<times> mapheap" where
  "make_map h = (next_free h, \<lparr>cells = (cells h)(next_free h := Map.empty),
                               next_free = Suc (next_free h)\<rparr>)"

definition map_assign :: "mapheap \<Rightarrow> addr \<Rightarrow> string \<Rightarrow> any \<Rightarrow> mapheap" where
  "map_assign h a k v = h\<lparr>cells := (cells h)(a := (cells h a)(k \<mapsto> v))\<rparr>"

record 'o Query =
  repo :: "Repo option"
  Collection :: string
  Fields :: "string list"
  AggregateField :: string
  AggregateMode :: string
  AsDistinct :: bool
  JoinClause :: "Join list"
  Condition :: Condition
  GroupFields :: "string list"
  HavingCondition :: Condition
  OrderClause :: "'o list"
  OffsetResult :: int
  LimitResult :: int
  LockClause :: string
  Changes :: "addr option"

definition Select :: "'o Query \<Rightarrow> string list \<Rightarrow> 'o Query" where
  "Select query fields' = query\<lparr>Fields := fields'\<rparr>"

definition Distinct :: "'o Query \<Rightarrow> 'o Query" where
  "Distinct query = query\<lparr>AsDistinct := True\<rparr>"

text \<open>\<open>strings.HasSuffix\<close> and \<open>strings.TrimSuffix\<close> of the Go library.\<close>

definition HasSuffix :: "string \<Rightarrow> string \<Rightarrow> bool" where
  "HasSuffix s suffix' =
     (length suffix' \<le> length s \<and> drop (length s - length suffix') s = suffix')"

definition TrimSuffix :: "string \<Rightarrow> string \<Rightarrow> string" where
  "TrimSuffix s suffix' =
     (if HasSuffix s suffix' then take (length s - length suffix') s else s)"

definition JoinWith :: "'o Query \<Rightarrow> string \<Rightarrow> string \<Rightarrow> Condition list \<Rightarrow> 'o Query" where
  "JoinWith query mode collection condition =
     (if length condition = 0
      then query\<lparr>JoinClause := JoinClause query @
             [\<lparr>Mode = mode, Collection = collection,
               Condition = c_And [c_Eq
                 (c_I (Collection query @ ''.'' @ TrimSuffix collection ''s'' @ ''_id''))
                 (c_I (collection @ ''.id''))]\<rparr>]\<rparr>
      else query\<lparr>JoinClause := JoinClause query @
             [\<lparr>Mode = mode, Collection = collection, Condition = c_And condition\<rparr>]\<rparr>)"

definition Join :: "'o Query \<Rightarrow> string \<Rightarrow> Condition list \<Rightarrow> 'o Query" where
  "Join query collection condition = JoinWith query ''JOIN'' collection condition"

definition Where :: "'o Query \<Rightarrow> Condition list \<Rightarrow> 'o Query" where
  "Where query condition =
     query\<lparr>Condition := Condition_And (Condition query) condition\<rparr>"


definition Group :: "'o Query \<Rightarrow> string list \<Rightarrow> 'o Query" where
  "Group query fields' = query\<lparr>GroupFields := fields'\<rparr>"

definition Having :: "'o Query \<Rightarrow> Condition list \<Rightarrow> 'o Query" where
  "Having query condition =
     query\<lparr>HavingCondition := Condition_And (HavingCondition query) condition\<rparr>"


definition Order :: "'o Query \<Rightarrow> 'o list \<Rightarrow> 'o Query" where
  "Order query order = query\<lparr>OrderClause := OrderClause query @ order\<rparr>"

definition Offset :: "'o Query \<Rightarrow> int \<Rightarrow> 'o Query" where
  "Offset query offset = query\<lparr>OffsetResult := offset\<rparr>"

definition Limit :: "'o Query \<Rightarrow> int \<Rightarrow> 'o Query" where
  "Limit query limit = query\<lparr>LimitResult := limit\<rparr>"

text \<open>\<open>Lock\<close> reads through the pointer \<open>repo\<close>: a nil pointer panics.\<close>

definition Lock :: "'o Query \<Rightarrow> string list \<Rightarrow> panic + 'o Query" where
  "Lock query lock =
     (case repo query of
        None \<Rightarrow> Inl NilDereference
      | Some r \<Rightarrow>
          if \<not> inTransaction r then Inr query
          else if length lock > 0 then Inr (query\<lparr>LockClause := lock ! 0\<rparr>)
          else Inr (query\<lparr>LockClause := ''FOR UPDATE''\<rparr>))"

definition FindBy :: "'o Query \<Rightarrow> string \<Rightarrow> any \<Rightarrow> 'o Query" where
  "FindBy query col val =
     Where query [c_Eq (c_I (Collection query @ ''.'' @ col)) (Lit val)]"

definition Find :: "'o Query \<Rightarrow> any \<Rightarrow> 'o Query" where
  "Find query id' = FindBy query ''id'' id'"

text \<open>
  \<open>Set\<close> allocates the map when the receiver has none, then writes into the map the
  receiver's copy holds. It returns the heap and the copy.
\<close>

definition Query_Set :: "mapheap \<Rightarrow> 'o Query \<Rightarrow> string \<Rightarrow> any \<Rightarrow> mapheap \<times> 'o Query" where
  "Query_Set h query field v =
     (case Changes query of
        None \<Rightarrow>
          (let (a, h') = make_map h
           in (map_assign h' a field v, query\<lparr>Changes := Some a\<rparr>))
      | Some a \<Rightarrow> (map_assign h a field v, query))"

text \<open>What \<open>query.Changes[field]\<close> reads: a nil map has no entry.\<close>

definition read_Changes :: "mapheap \<Rightarrow> 'o Query \<Rightarrow> string \<Rightarrow> any option" where
  "read_Changes h query field =
     (case Changes query of None \<Rightarrow> None | Some a \<Rightarrow> cells h a field)"

text \<open>An empty query over a collection, a heap with no map, and two values.\<close>

definition empty_query :: "string \<Rightarrow> unit Query" where
  "empty_query collection =
     \<lparr>repo = None, Collection = collection, Fields = [], AggregateField = [],
      AggregateMode = [], AsDistinct = False, JoinClause = [], Condition = Condition_zero,
      GroupFields = [], HavingCondition = Condition_zero, OrderClause = [],
      OffsetResult = 0, LimitResult = 0, LockClause = [], Changes = None\<rparr>"

definition empty_heap :: mapheap where
  "empty_heap = \<lparr>cells = (\<lambda>a. Map.empty), next_free = 0\<rparr>"

definition int_value :: "int \<Rightarrow> any" where
  "int_value n = Some (TInt, VInt n)"

text \<open>Three comparisons, and a row on which only the second holds.\<close>

definition cond_x :: Condition where
  "cond_x = c_Eq (c_I ''x'') (Lit (int_value 1))"

definition cond_y :: Condition where
  "cond_y = c_Eq (c_I ''y'') (Lit (int_value 2))"



section \<open>query.go: the error translator\<close>

text \<open>
  Modelled from the spec: the domain error of package \<open>errors\<close>, which is not among the
  source files: a message, the field it concerns and its kind.
\<close>

datatype ErrorKind =
    InvalidTarget | InvalidPath | SchemaMismatch | ConstraintViolation | NotFound | Unexpected

datatype Error = Error (Message: string) (ErrorField: string) (Kind: ErrorKind)

text \<open>
  A non-nil value of the interface \<open>error\<close>: a domain error, or a value of any other type,
  of which the code reads the message only.
\<close>

datatype goerror = DomainError Error | OtherError string

text \<open>Modelled from the spec: \<open>errors.NewUnexpected\<close>, the generic unexpected error.\<close>

definition NewUnexpected :: "string \<Rightarrow> Error" where
  "NewUnexpected message = Error message [] Unexpected"

text \<open>
  Modelled from the spec: a changeset of package \<open>changeset\<close>, of which the code asks the
  constraint registry only. The registry is opaque; its method \<open>GetError\<close> is the
  parameter \<open>GetError\<close>. The changesets are passed by pointers, taken not to be nil.
\<close>

record 'k Changeset =
  Constraints :: 'k

definition transformError ::
  "('k \<Rightarrow> Error \<Rightarrow> goerror option) \<Rightarrow> goerror option \<Rightarrow> 'k Changeset list \<Rightarrow> goerror option" where
  "transformError GetError err chs =
     (case err of
        None \<Rightarrow> None
      | Some (DomainError e) \<Rightarrow>
          if length chs > 0 then GetError (Constraints (chs ! 0)) e
          else Some (DomainError e)
      | Some (OtherError message) \<Rightarrow> Some (DomainError (NewUnexpected message)))"

text \<open>A registry that knows one constraint: a unique index on the field \<open>slug\<close>.\<close>

definition slug_registry :: "string \<Rightarrow> Error \<Rightarrow> goerror option" where
  "slug_registry key e =
     (if Message e = key then Some (DomainError (Error ''slug is taken'' ''slug'' ConstraintViolation))
      else Some (DomainError e))"

section \<open>primary_key.go\<close>

text \<open>
  A record arrives as an \<open>interface{}\<close>. Whether it implements \<open>primaryKey\<close> is decided by
  its dynamic type: \<open>methods\<close> gives, for a type that has the method \<open>PrimaryKey\<close>, what the
  method returns on a value.
\<close>

type_synonym method_table = "Type \<Rightarrow> (Value \<Rightarrow> string \<times> any) option"

definition as_primaryKey :: "method_table \<Rightarrow> any \<Rightarrow> (string \<times> any) option" where
  "as_primaryKey methods record =
     (case record of
        None \<Rightarrow> None
      | Some (t, v) \<Rightarrow> (case methods t of None \<Rightarrow> None | Some PrimaryKey \<Rightarrow> Some (PrimaryKey v)))"

definition getPrimaryKey :: "method_table \<Rightarrow> any \<Rightarrow> bool \<Rightarrow> string \<times> any" where
  "getPrimaryKey methods record withValue =
     (case as_primaryKey methods record of
        Some pk \<Rightarrow> pk
      | None \<Rightarrow> (let v = Some (TInt, VInt 0) in (''id'', v)))"

text \<open>A type \<open>User\<close> whose \<open>PrimaryKey\<close> returns the column \<open>uuid\<close> and the first field.\<close>

definition user_type :: Type where
  "user_type = TStruct ''User'' [StructField ''UUID'' [] TString]"

definition user_methods :: method_table where
  "user_methods t =
     (if t = user_type
      then Some (\<lambda>v. case v of VStruct (x # _) \<Rightarrow> (''uuid'', Some (TString, x))
                               | _ \<Rightarrow> (''uuid'', None))
      else None)"

section \<open>changes.go\<close>

datatype ChangeOp = ChangeSetOp | ChangeIncOp | ChangeDecOp | ChangeFragmentOp

record Change =
  Type :: ChangeOp
  Field :: string
  Value :: any

text \<open>
  \<open>Changes\<close> and \<open>AssocChanges\<close> refer to each other. The type \<open>constraints\<close> is not
  declared in the source files; it is the parameter \<open>'c\<close>. The slices of changes are lists
  (a nil slice is the empty list); \<open>StaleIDs\<close>, where nil has a meaning of its own, is nil
  or a list.
\<close>

datatype 'c Changes =
  MkChanges (Fields: "(string, int) gomap") (Changes: "Change list")
            (Assoc: "(string, int) gomap") (AssocChanges: "'c AssocChanges list")
            (constraints: 'c)
and 'c AssocChanges =
  MkAssocChanges (AssocChanges_Changes: "'c Changes list") (StaleIDs: "any list option")

definition Empty :: "'c Changes \<Rightarrow> bool" where
  "Empty c = (length (Changes c) = 0)"

definition Changes_Get :: "'c Changes \<Rightarrow> string \<Rightarrow> panic + (Change \<times> bool)" where
  "Changes_Get c field =
     (case map_get (Fields c) field of
        Some index \<Rightarrow>
          if in_range index (Changes c) then Inr (Changes c ! nat index, True)
          else Inl IndexOutOfRange
      | None \<Rightarrow> Inr (\<lparr>Type = ChangeSetOp, Field = [], Value = None\<rparr>, False))"

definition Changes_Set :: "'c Changes \<Rightarrow> Change \<Rightarrow> panic + 'c Changes" where
  "Changes_Set c ch =
     (case map_get (Fields c) (Field ch) of
        Some index \<Rightarrow>
          if in_range index (Changes c)
          then Inr (MkChanges (Fields c) ((Changes c)[nat index := ch])
                      (Assoc c) (AssocChanges c) (constraints c))
          else Inl IndexOutOfRange
      | None \<Rightarrow>
          (case map_put (Fields c) (Field ch) (int (length (Changes c))) of
             Inl e \<Rightarrow> Inl e
           | Inr m \<Rightarrow> Inr (MkChanges m (Changes c @ [ch])
                            (Assoc c) (AssocChanges c) (constraints c))))"

definition Changes_GetValue :: "'c Changes \<Rightarrow> string \<Rightarrow> panic + (any \<times> bool)" where
  "Changes_GetValue c field =
     (case Changes_Get c field of Inl e \<Rightarrow> Inl e | Inr (ch, ok) \<Rightarrow> Inr (Value ch, ok))"

definition Changes_GetAssoc :: "'c Changes \<Rightarrow> string \<Rightarrow> panic + ('c AssocChanges \<times> bool)" where
  "Changes_GetAssoc c field =
     (case map_get (Assoc c) field of
        Some index \<Rightarrow>
          if in_range index (AssocChanges c) then Inr (AssocChanges c ! nat index, True)
          else Inl IndexOutOfRange
      | None \<Rightarrow> Inr (MkAssocChanges [] None, False))"

definition appendAssoc :: "'c Changes \<Rightarrow> string \<Rightarrow> 'c AssocChanges \<Rightarrow> panic + 'c Changes" where
  "appendAssoc c field ac =
     (case map_put (Assoc c) field (int (length (AssocChanges c))) of
        Inl e \<Rightarrow> Inl e
      | Inr m \<Rightarrow> Inr (MkChanges (Fields c) (Changes c) m (AssocChanges c @ [ac])
                       (constraints c)))"

definition Changes_SetAssoc :: "'c Changes \<Rightarrow> string \<Rightarrow> 'c Changes list \<Rightarrow> panic + 'c Changes" where
  "Changes_SetAssoc c field chs =
     (case map_get (Assoc c) field of
        Some index \<Rightarrow>
          if in_range index (AssocChanges c)
          then Inr (MkChanges (Fields c) (Changes c) (Assoc c)
                      ((AssocChanges c)[nat index :=
                         MkAssocChanges chs (StaleIDs (AssocChanges c ! nat index))])
                      (constraints c))
          else Inl IndexOutOfRange
      | None \<Rightarrow> appendAssoc c field (MkAssocChanges chs None))"

definition Changes_SetStaleAssoc :: "'c Changes \<Rightarrow> string \<Rightarrow> any list option \<Rightarrow> panic + 'c Changes" where
  "Changes_SetStaleAssoc c field ids =
     (case map_get (Assoc c) field of
        Some index \<Rightarrow>
          if in_range index (AssocChanges c)
          then Inr (MkChanges (Fields c) (Changes c) (Assoc c)
                      ((AssocChanges c)[nat index :=
                         MkAssocChanges (AssocChanges_Changes (AssocChanges c ! nat index)) ids])
                      (constraints c))
          else Inl IndexOutOfRange
      | None \<Rightarrow> appendAssoc c field (MkAssocChanges [] ids))"

definition Set :: "string \<Rightarrow> any \<Rightarrow> Change" where
  "Set field v = \<lparr>Type = ChangeSetOp, Field = field, Value = v\<rparr>"

definition Changes_SetValue :: "'c Changes \<Rightarrow> string \<Rightarrow> any \<Rightarrow> panic + 'c Changes" where
  "Changes_SetValue c field v = Changes_Set c (Set field v)"

definition IncBy :: "string \<Rightarrow> int \<Rightarrow> Change" where
  "IncBy field n = \<lparr>Type = ChangeIncOp, Field = field, Value = Some (TInt, VInt n)\<rparr>"

definition Inc :: "string \<Rightarrow> Change" where
  "Inc field = IncBy field 1"

definition DecBy :: "string \<Rightarrow> int \<Rightarrow> Change" where
  "DecBy field n = \<lparr>Type = ChangeDecOp, Field = field, Value = Some (TInt, VInt n)\<rparr>"

definition Dec :: "string \<Rightarrow> Change" where
  "Dec field = DecBy field 1"

definition ChangeFragment :: "string \<Rightarrow> any list \<Rightarrow> Change" where
  "ChangeFragment raw args =
     \<lparr>Type = ChangeFragmentOp, Field = raw,
      Value = Some (TSlice TInterface, VSlice (Some (map VIface args)))\<rparr>"

text \<open>
  A \<open>Changer\<close> is anything with a \<open>Build\<close> method on a \<open>*Changes\<close>: a function from the log
  to the log it leaves (or a panic). A \<open>Change\<close> is one.
\<close>

type_synonym 'c Changer = "'c Changes \<Rightarrow> panic + 'c Changes"

definition Change_Build :: "Change \<Rightarrow> 'c Changer" where
  "Change_Build ch = (\<lambda>changes. Changes_Set changes ch)"

fun build_all :: "'c Changer list \<Rightarrow> 'c Changes \<Rightarrow> panic + 'c Changes" where
  "build_all [] changes = Inr changes"
| "build_all (b # bs) changes =
     (case b changes of Inl e \<Rightarrow> Inl e | Inr changes' \<Rightarrow> build_all bs changes')"

text \<open>\<open>BuildChanges\<close>; \<open>z\<close> is the zero value of the type \<open>constraints\<close>.\<close>

definition BuildChanges :: "'c \<Rightarrow> 'c Changer list \<Rightarrow> panic + 'c Changes" where
  "BuildChanges z changers =
     build_all changers (MkChanges (Some Map.empty) [] (Some Map.empty) [] z)"

subsection \<open>The Change Log invariant\<close>

text \<open>
  The mapping and the sequence are in sync: every key of \<open>Fields\<close> is a valid index into
  \<open>Changes\<close> and the change there has the key as its field; every key of \<open>Assoc\<close> is a valid
  index into \<open>AssocChanges\<close>.
\<close>

definition fields_sync :: "'c Changes \<Rightarrow> bool" where
  "fields_sync c =
     (\<forall>f i. map_get (Fields c) f = Some i \<longrightarrow>
            in_range i (Changes c) \<and> Field (Changes c ! nat i) = f)"

definition assoc_sync :: "'c Changes \<Rightarrow> bool" where
  "assoc_sync c =
     (\<forall>f i. map_get (Assoc c) f = Some i \<longrightarrow> in_range i (AssocChanges c))"

text \<open>Both maps are allocated, as \<open>BuildChanges\<close> leaves them.\<close>

definition allocated :: "'c Changes \<Rightarrow> bool" where
  "allocated c = (Fields c \<noteq> None \<and> Assoc c \<noteq> None)"

text \<open>Every recorded change is found under its own field.\<close>

definition indexed :: "'c Changes \<Rightarrow> bool" where
  "indexed c =
     (\<forall>n < length (Changes c). map_get (Fields c) (Field (Changes c ! n)) = Some (int n))"

definition in_sync :: "'c Changes \<Rightarrow> bool" where
  "in_sync c = (allocated c \<and> fields_sync c \<and> assoc_sync c \<and> indexed c)"

text \<open>
  The logs reachable from a freshly built one by \<open>Set\<close>, \<open>SetAssoc\<close> and \<open>SetStaleAssoc\<close>,
  in any order.
\<close>

inductive reachable :: "'c Changes \<Rightarrow> bool" where
  fresh: "BuildChanges z [] = Inr c \<Longrightarrow> reachable c"
| by_Set: "reachable c \<Longrightarrow> Changes_Set c ch = Inr c' \<Longrightarrow> reachable c'"
| by_SetAssoc: "reachable c \<Longrightarrow> Changes_SetAssoc c field chs = Inr c' \<Longrightarrow> reachable c'"
| by_SetStaleAssoc:
    "reachable c \<Longrightarrow> Changes_SetStaleAssoc c field ids = Inr c' \<Longrightarrow> reachable c'"

text \<open>
  What the specification says of \<open>Set\<close>, on the sequence alone: a field already present is
  overwritten where it stands, a new field is appended.
\<close>

definition upsert :: "Change list \<Rightarrow> Change \<Rightarrow> Change list" where
  "upsert xs ch =
     (if Field ch \<in> set (map Field xs)
      then map (\<lambda>x. if Field x = Field ch then ch else x) xs
      else xs @ [ch])"

text \<open>The elements of a list in the order of their first occurrence.\<close>

primrec first_seen :: "'a list \<Rightarrow> 'a list" where
  "first_seen [] = []"
| "first_seen (x # xs) = x # filter (\<lambda>y. y \<noteq> x) (first_seen xs)"

text \<open>The last change of a sequence that names the field.\<close>

definition latest :: "Change list \<Rightarrow> string \<Rightarrow> Change" where
  "latest chs f = last (filter (\<lambda>ch. Field ch = f) chs)"

text \<open>A fresh log, and one reached by three operations.\<close>

definition fresh_log :: "unit Changes" where
  "fresh_log = MkChanges (Some Map.empty) [] (Some Map.empty) [] ()"

definition example_log :: "unit Changes" where
  "example_log =
     MkChanges (Some (Map.empty(''name'' \<mapsto> 0)))
       [Set ''name'' (Some (TString, VString ''Ann''))]
       (Some (Map.empty(''tags'' \<mapsto> 0)))
       [MkAssocChanges [fresh_log] (Some [])] ()"

section \<open>query.go: preloading\<close>

subsection \<open>Types, as package reflect shows them\<close>

datatype Kind = Invalid | Bool | Int' | String | Interface | Ptr | Slice | Array | Struct







subsection \<open>getPreloadInfo\<close>









subsection \<open>Values, as package reflect shows them\<close>

text \<open>
  The records live in a store of objects. A \<open>reflect.Value\<close> that can be set is a place in
  the store with its static type: the field reached by \<open>path\<close> inside the object at
  \<open>base\<close>. A pointer holds the address of a whole object.
\<close>

type_synonym store = "addr \<Rightarrow> Value option"

record rValue =
  vtyp :: Type
  base :: addr
  path :: "nat list"

fun get_path :: "Value \<Rightarrow> nat list \<Rightarrow> Value option" where
  "get_path v [] = Some v"
| "get_path (VStruct fs) (i # is) = (if i < length fs then get_path (fs ! i) is else None)"
| "get_path v (i # is) = None"

fun set_path :: "Value \<Rightarrow> nat list \<Rightarrow> Value \<Rightarrow> Value" where
  "set_path v [] x = x"
| "set_path (VStruct fs) (i # is) x =
     (if i < length fs then VStruct (fs[i := set_path (fs ! i) is x]) else VStruct fs)"
| "set_path v (i # is) x = v"

definition load :: "store \<Rightarrow> rValue \<Rightarrow> Value option" where
  "load s v = (case s (base v) of None \<Rightarrow> None | Some obj \<Rightarrow> get_path obj (path v))"

text \<open>\<open>Value.Set\<close>.\<close>

definition Value_Set :: "store \<Rightarrow> rValue \<Rightarrow> Value \<Rightarrow> store" where
  "Value_Set s v x =
     (case s (base v) of None \<Rightarrow> s | Some obj \<Rightarrow> s(base v \<mapsto> set_path obj (path v) x))"

text \<open>\<open>reflect.Zero\<close>: the zero value of a type.\<close>

fun Zero :: "Type \<Rightarrow> Value" and Zero_field :: "StructField \<Rightarrow> Value" where
  "Zero TInt = VInt 0"
| "Zero TString = VString []"
| "Zero TBool = VBool False"
| "Zero TInterface = VIface None"
| "Zero (TPtr t) = VPtr None"
| "Zero (TSlice t) = VSlice None"
| "Zero (TArray n t) = VArray (replicate n (Zero t))"
| "Zero (TStruct name fs) = VStruct (map Zero_field fs)"
| "Zero_field (StructField name tag t) = Zero t"






text \<open>
  A map keyed by \<open>interface{}\<close> panics on a key whose type cannot be compared: a slice, or
  an array, struct or interface that holds one.
\<close>

fun comparable :: "Type \<Rightarrow> bool" and comparable_field :: "StructField \<Rightarrow> bool" where
  "comparable (TSlice t) = False"
| "comparable (TArray n t) = comparable t"
| "comparable (TStruct name fs) = list_all comparable_field fs"
| "comparable TInt = True"
| "comparable TString = True"
| "comparable TBool = True"
| "comparable TInterface = True"
| "comparable (TPtr t) = True"
| "comparable_field (StructField name tag t) = comparable t"



subsection \<open>collectPreloadTarget\<close>

record preloadTarget =
  schema :: rValue
  field :: rValue




subsection \<open>What collectPreloadTarget is to compute\<close>














section \<open>Properties of the query builder\<close>



lemma Having_holds:
  "holds row (HavingCondition (Having q cs)) =
     (holds row (HavingCondition q) \<and> list_all (holds row) cs)"
  by (simp add: Having_def Condition_And_def)





text \<open>
  C4. \<open>JoinWith\<close> with no condition appends the join whose condition is the equality of
  \<open>X.<Y without one trailing s>_id\<close> and \<open>Y.id\<close>, where \<open>X\<close> is the collection of the
  descriptor and \<open>Y\<close> the related collection; with conditions it appends the join whose
  condition is their conjunction. \<open>Join\<close> is \<open>JoinWith\<close> in the mode \<open>JOIN\<close>.
\<close>

theorem JoinWith_condition:
  "JoinClause (JoinWith q mode collection []) =
     JoinClause q @
       [\<lparr>Mode = mode, Collection = collection,
         Condition = c_And [c_Eq
            (c_I (Query.Collection q @ ''.'' @ TrimSuffix collection ''s'' @ ''_id''))
            (c_I (collection @ ''.id''))]\<rparr>] \<and>
   (conds \<noteq> [] \<longrightarrow>
      JoinClause (JoinWith q mode collection conds) =
        JoinClause q @ [\<lparr>Mode = mode, Collection = collection, Condition = c_And conds\<rparr>]) \<and>
   Join q collection conds = JoinWith q ''JOIN'' collection conds \<and>
   TrimSuffix (y @ ''s'') ''s'' = y \<and>
   (\<not> HasSuffix collection ''s'' \<longrightarrow> TrimSuffix collection ''s'' = collection) \<and>
   holds row (c_And [c_Eq l r]) = row l r \<and>
   holds row (c_And conds) = list_all (holds row) conds"
  by (simp add: JoinWith_def Join_def TrimSuffix_def HasSuffix_def c_And_def c_Eq_def)

theorem JoinWith_condition_witness:
  "JoinClause (Join (empty_query ''posts'') ''comments'' []) =
     [\<lparr>Mode = ''JOIN'', Collection = ''comments'',
       Condition = c_And [c_Eq (c_I ''posts.comment_id'') (c_I ''comments.id'')]\<rparr>] \<and>
   [cond_x, cond_y] \<noteq> [] \<and>
   JoinClause (JoinWith (empty_query ''posts'') ''LEFT JOIN'' ''users'' [cond_x, cond_y]) =
     [\<lparr>Mode = ''LEFT JOIN'', Collection = ''users'', Condition = c_And [cond_x, cond_y]\<rparr>] \<and>
   \<not> HasSuffix ''person'' ''s'' \<and> TrimSuffix ''person'' ''s'' = ''person''"
proof -
  note t = JoinWith_condition[of "empty_query ''posts''" "''JOIN''" "''comments''" "[]" "''comment''"]
  note u = JoinWith_condition[of "empty_query ''posts''" "''LEFT JOIN''" "''users''" "[cond_x, cond_y]"]
  note v = JoinWith_condition[of _ _ "''person''"]
  have n: "\<not> HasSuffix ''person'' ''s''" by (simp add: HasSuffix_def)
  have e: "JoinClause (empty_query ''posts'') = []" "Query.Collection (empty_query ''posts'') = ''posts''"
    by (simp_all add: empty_query_def)
  from t have "Join (empty_query ''posts'') ''comments'' [] = JoinWith (empty_query ''posts'') ''JOIN'' ''comments'' []"
    "TrimSuffix ''comments'' ''s'' = ''comment''" by simp_all
  with t e have a: "JoinClause (Join (empty_query ''posts'') ''comments'' []) =
     [\<lparr>Mode = ''JOIN'', Collection = ''comments'',
       Condition = c_And [c_Eq (c_I ''posts.comment_id'') (c_I ''comments.id'')]\<rparr>]" by simp
  from u e have b: "JoinClause (JoinWith (empty_query ''posts'') ''LEFT JOIN'' ''users'' [cond_x, cond_y]) =
     [\<lparr>Mode = ''LEFT JOIN'', Collection = ''users'', Condition = c_And [cond_x, cond_y]\<rparr>]" by simp
  from v n have c: "TrimSuffix ''person'' ''s'' = ''person''" by blast
  from a b c n show ?thesis by simp
qed

text \<open>
  C5 fails for \<open>Set\<close>: when the receiver already holds a map, \<open>Set\<close> writes into that
  very map. After \<open>q1 = q0.Set("a", 1)\<close> and \<open>q2 = q1.Set("b", 2)\<close>, the entry \<open>b\<close> is read
  through \<open>q1\<close> as well.
\<close>

theorem Query_Set_writes_into_receivers_map:
  "(case Query_Set empty_heap (empty_query ''posts'') ''a'' (int_value 1) of
      (h1, q1) \<Rightarrow>
        (case Query_Set h1 q1 ''b'' (int_value 2) of
           (h2, q2) \<Rightarrow>
             read_Changes h1 q1 ''a'' = Some (int_value 1) \<and>
             read_Changes h1 q1 ''b'' = None \<and>
             read_Changes h2 q1 ''a'' = Some (int_value 1) \<and>
             read_Changes h2 q1 ''b'' = Some (int_value 2) \<and>
             Query.Changes q2 = Query.Changes q1))"
  by (simp add: Query_Set_def make_map_def map_assign_def empty_heap_def empty_query_def
      read_Changes_def)

lemma Query_Set_nil_keeps_heap:
  "Query.Changes q = None \<Longrightarrow> a < next_free h \<Longrightarrow>
   cells (fst (Query_Set h q k v)) a = cells h a"
  by (simp add: Query_Set_def make_map_def map_assign_def)

lemma Query_Set_shared:
  "Query.Changes q = Some a \<Longrightarrow> read_Changes (fst (Query_Set h q k v)) q k = Some v"
  by (simp add: Query_Set_def map_assign_def read_Changes_def)

text \<open>
  C8. \<open>transformError\<close> maps nil to nil; it returns a domain error unchanged when no
  changeset is given and otherwise returns what the constraint registry of the first
  changeset makes of it; any other error becomes the unexpected domain error that carries
  its message.
\<close>

theorem transformError_cases:
  "transformError GetError None chs = None \<and>
   transformError GetError (Some (DomainError e)) [] = Some (DomainError e) \<and>
   transformError GetError (Some (DomainError e)) (ch # chs) = GetError (Constraints ch) e \<and>
   transformError GetError (Some (OtherError message)) chs =
     Some (DomainError (NewUnexpected message)) \<and>
   Kind (NewUnexpected message) = Unexpected \<and>
   Message (NewUnexpected message) = message"
  by (simp add: transformError_def NewUnexpected_def)

theorem transformError_cases_witness:
  "transformError slug_registry (Some (DomainError (Error ''posts_slug_key'' [] Unexpected)))
     [\<lparr>Constraints = ''posts_slug_key''\<rparr>] =
     Some (DomainError (Error ''slug is taken'' ''slug'' ConstraintViolation)) \<and>
   transformError slug_registry (Some (DomainError (Error ''posts_slug_key'' [] Unexpected))) [] =
     Some (DomainError (Error ''posts_slug_key'' [] Unexpected)) \<and>
   transformError slug_registry (Some (OtherError ''connection reset'')) [] =
     Some (DomainError (Error ''connection reset'' [] Unexpected))"
  using transformError_cases[of slug_registry "[]" "Error ''posts_slug_key'' [] Unexpected"
      "\<lparr>Constraints = ''posts_slug_key''\<rparr>" "''connection reset''"]
  by (simp add: slug_registry_def NewUnexpected_def)

section \<open>Properties of the primary key\<close>

text \<open>
  C10. When the record implements \<open>primaryKey\<close>, \<open>getPrimaryKey\<close> returns the pair its
  method \<open>PrimaryKey\<close> returns; otherwise it returns the name \<open>id\<close> with the value 0,
  whatever \<open>withValue\<close> is.
\<close>

theorem getPrimaryKey_cases:
  "(as_primaryKey methods record = Some pk \<longrightarrow> getPrimaryKey methods record withValue = pk) \<and>
   (as_primaryKey methods record = None \<longrightarrow>
      getPrimaryKey methods record withValue = (''id'', Some (TInt, VInt 0)))"
  by (simp add: getPrimaryKey_def)

theorem getPrimaryKey_cases_witness:
  "as_primaryKey user_methods (Some (user_type, VStruct [VString ''u1''])) =
     Some (''uuid'', Some (TString, VString ''u1'')) \<and>
   getPrimaryKey user_methods (Some (user_type, VStruct [VString ''u1''])) True =
     (''uuid'', Some (TString, VString ''u1'')) \<and>
   as_primaryKey user_methods (Some (TInt, VInt 7)) = None \<and>
   getPrimaryKey user_methods (Some (TInt, VInt 7)) True = (''id'', Some (TInt, VInt 0)) \<and>
   getPrimaryKey user_methods (Some (TInt, VInt 7)) False = (''id'', Some (TInt, VInt 0)) \<and>
   as_primaryKey user_methods None = None \<and>
   getPrimaryKey user_methods None False = (''id'', Some (TInt, VInt 0))"
proof -
  have a: "as_primaryKey user_methods (Some (user_type, VStruct [VString ''u1''])) =
     Some (''uuid'', Some (TString, VString ''u1''))"
    by (simp add: as_primaryKey_def user_methods_def)
  have b: "as_primaryKey user_methods (Some (TInt, VInt 7)) = None"
    by (simp add: as_primaryKey_def user_methods_def user_type_def)
  have c: "as_primaryKey user_methods None = None"
    by (simp add: as_primaryKey_def)
  from getPrimaryKey_cases[of user_methods "Some (user_type, VStruct [VString ''u1''])" _ True]
       getPrimaryKey_cases[of user_methods "Some (TInt, VInt 7)" _ True]
       getPrimaryKey_cases[of user_methods "Some (TInt, VInt 7)" _ False]
       getPrimaryKey_cases[of user_methods None _ False] a b c
  show ?thesis by simp
qed

section \<open>Properties of the Change Log\<close>

lemma in_sync_fresh: "in_sync (MkChanges (Some Map.empty) [] (Some Map.empty) [] z)"
  by (simp add: in_sync_def allocated_def fields_sync_def assoc_sync_def indexed_def map_get_def)

lemma in_range_nat: "in_range i xs \<Longrightarrow> nat i < length xs"
  unfolding in_range_def by arith

lemma indexed_inj:
  assumes ix: "indexed c" and i: "i < length (Changes c)" and j: "j < length (Changes c)"
    and e: "Field (Changes c ! i) = Field (Changes c ! j)"
  shows "i = j"
proof -
  from ix i have "map_get (Fields c) (Field (Changes c ! i)) = Some (int i)"
    unfolding indexed_def by simp
  then have "map_get (Fields c) (Field (Changes c ! j)) = Some (int i)"
    by (simp only: e)
  moreover from ix j have "map_get (Fields c) (Field (Changes c ! j)) = Some (int j)"
    unfolding indexed_def by simp
  ultimately have "Some (int i) = Some (int j)" by (rule trans[OF sym])
  then show "i = j" by simp
qed

lemma in_sync_distinct:
  assumes "in_sync c" shows "distinct (map Field (Changes c))"
proof -
  from assms have ix: "indexed c" by (simp add: in_sync_def)
  show ?thesis
    by (auto simp: distinct_conv_nth dest: indexed_inj[OF ix])
qed

lemma Set_present:
  assumes "in_sync c" "map_get (Fields c) (Field ch) = Some i"
  shows "Changes_Set c ch = Inr (MkChanges (Fields c) ((Changes c)[nat i := ch])
                      (Assoc c) (AssocChanges c) (constraints c))"
  using assms by (auto simp: Changes_Set_def in_sync_def fields_sync_def)

lemma Set_absent:
  assumes "in_sync c" "map_get (Fields c) (Field ch) = None"
  shows "\<exists>m. Fields c = Some m \<and> Changes_Set c ch = Inr (MkChanges (Some (m(Field ch \<mapsto> int (length (Changes c))))) (Changes c @ [ch])
                      (Assoc c) (AssocChanges c) (constraints c))"
  using assms by (auto simp: Changes_Set_def in_sync_def allocated_def map_put_def)

lemma Set_in_sync:
  assumes "in_sync c" "Changes_Set c ch = Inr c'"
  shows "in_sync c'"
proof (cases "map_get (Fields c) (Field ch)")
  case None
  from Set_absent[OF assms(1) None] assms(2) obtain m where m: "Fields c = Some m"
    "c' = MkChanges (Some (m(Field ch \<mapsto> int (length (Changes c))))) (Changes c @ [ch])
                      (Assoc c) (AssocChanges c) (constraints c)" by auto
  from assms(1) have fs: "fields_sync c" and ix: "indexed c" and al: "allocated c" and as: "assoc_sync c"
    by (auto simp: in_sync_def)
  have "fields_sync c'" unfolding fields_sync_def
  proof (intro allI impI)
    fix f i assume a: "map_get (Fields c') f = Some i"
    show "in_range i (Changes c') \<and> Field (Changes c' ! nat i) = f"
    proof (cases "f = Field ch")
      case True
      with a m show ?thesis by (auto simp: map_get_def in_range_def)
    next
      case False
      with a m have "map_get (Fields c) f = Some i" by (simp add: map_get_def)
      with fs have "in_range i (Changes c)" "Field (Changes c ! nat i) = f"
        by (auto simp: fields_sync_def)
      then show ?thesis using m by (auto simp: in_range_def nth_append)
    qed
  qed
  moreover have "indexed c'" using ix m None
    by (auto simp: indexed_def map_get_def nth_append less_Suc_eq split: if_splits)
  moreover have "allocated c'" "assoc_sync c'" using al as m by (auto simp: allocated_def assoc_sync_def)
  ultimately show ?thesis by (simp add: in_sync_def)
next
  case (Some i)
  from Set_present[OF assms(1) Some] assms(2) have c': 
    "c' = MkChanges (Fields c) ((Changes c)[nat i := ch]) (Assoc c) (AssocChanges c) (constraints c)" by simp
  from assms(1) have fs: "fields_sync c" and ix: "indexed c" and al: "allocated c" and as: "assoc_sync c"
    by (auto simp: in_sync_def)
  from fs Some have r: "in_range i (Changes c)" "Field (Changes c ! nat i) = Field ch"
    by (auto simp: fields_sync_def)
  have "fields_sync c'" using fs c' r
    by (auto simp: fields_sync_def in_range_def nth_list_update)
  moreover have "indexed c'" unfolding indexed_def
  proof (intro allI impI)
    fix n assume "n < length (Changes c')"
    then have n: "n < length (Changes c)" using c' by simp
    with ix have g: "map_get (Fields c) (Field (Changes c ! n)) = Some (int n)"
      unfolding indexed_def by simp
    show "map_get (Fields c') (Field (Changes c' ! n)) = Some (int n)"
    proof (cases "n = nat i")
      case True
      with n c' r g show ?thesis by simp
    next
      case False
      with n c' g show ?thesis by simp
    qed
  qed
  moreover have "allocated c'" "assoc_sync c'" using al as c' by (auto simp: allocated_def assoc_sync_def)
  ultimately show ?thesis by (simp add: in_sync_def)
qed

lemma Set_upsert:
  assumes "in_sync c"
  shows "\<exists>c'. Changes_Set c ch = Inr c' \<and> Changes c' = upsert (Changes c) ch
     \<and> (\<forall>f i. map_get (Fields c) f = Some i \<longrightarrow> map_get (Fields c') f = Some i)"
proof (cases "map_get (Fields c) (Field ch)")
  case None
  from assms have ix: "indexed c" by (simp add: in_sync_def)
  have "Field ch \<notin> set (map Field (Changes c))"
  proof
    assume "Field ch \<in> set (map Field (Changes c))"
    then obtain n where "n < length (Changes c)" "Field (Changes c ! n) = Field ch"
      by (auto simp: in_set_conv_nth)
    with ix None show False by (auto simp: indexed_def)
  qed
  with Set_absent[OF assms None] None show ?thesis
    by (auto simp: upsert_def map_get_def)
next
  case (Some i)
  from assms have fs: "fields_sync c" and ix: "indexed c" by (simp_all add: in_sync_def)
  from fs Some have r: "in_range i (Changes c)" "Field (Changes c ! nat i) = Field ch"
    by (auto simp: fields_sync_def)
  have d: "distinct (map Field (Changes c))" by (rule in_sync_distinct[OF assms])
  have mem: "Field ch \<in> set (map Field (Changes c))"
  proof -
    from r have "nat i < length (Changes c)" by (simp add: in_range_nat)
    then have "Changes c ! nat i \<in> set (Changes c)" by (rule nth_mem)
    then have "Field (Changes c ! nat i) \<in> set (map Field (Changes c))" by simp
    with r show ?thesis by simp
  qed
  have "(Changes c)[nat i := ch] = map (\<lambda>x. if Field x = Field ch then ch else x) (Changes c)"
  proof (rule nth_equalityI)
    show "length ((Changes c)[nat i := ch]) = length (map (\<lambda>x. if Field x = Field ch then ch else x) (Changes c))" by simp
  next
    fix n assume "n < length ((Changes c)[nat i := ch])"
    then have n: "n < length (Changes c)" by simp
    show "(Changes c)[nat i := ch] ! n = map (\<lambda>x. if Field x = Field ch then ch else x) (Changes c) ! n"
    proof (cases "n = nat i")
      case True then show ?thesis using n r by simp
    next
      case False
      have "Field (Changes c ! n) \<noteq> Field ch"
      proof
        assume "Field (Changes c ! n) = Field ch"
        then have "Field (Changes c ! n) = Field (Changes c ! nat i)" using r by simp
        moreover have "nat i < length (Changes c)" using r by (simp add: in_range_nat)
        ultimately have "n = nat i" using ix n by (blast intro: indexed_inj)
        with False show False by simp
      qed
      with False n show ?thesis by simp
    qed
  qed
  with Set_present[OF assms Some] mem show ?thesis by (simp add: upsert_def)
qed

lemma set_first_seen: "set (first_seen xs) = set xs"
  by (induction xs) auto

lemma first_seen_snoc:
  "first_seen (xs @ [a]) = (if a \<in> set xs then first_seen xs else first_seen xs @ [a])"
  by (induction xs) (auto simp: set_first_seen)

lemma first_seen_distinct: "distinct xs \<Longrightarrow> first_seen xs = xs"
proof (induction xs)
  case Nil then show ?case by simp
next
  case (Cons x xs)
  then have "filter (\<lambda>y. y \<noteq> x) xs = xs" by (auto intro: filter_True)
  with Cons show ?case by simp
qed

lemma filter_unique:
  "distinct (map f xs) \<Longrightarrow> x \<in> set xs \<Longrightarrow> filter (\<lambda>y. f y = f x) xs = [x]"
proof (induction xs)
  case Nil then show ?case by simp
next
  case (Cons a xs)
  show ?case
  proof (cases "x = a")
    case True
    from Cons.prems have "f a \<notin> f ` set xs" by simp
    then have "\<forall>y\<in>set xs. f y \<noteq> f a" by (metis imageI)
    then have "filter (\<lambda>y. f y = f a) xs = []" by (simp add: filter_empty_conv)
    with True show ?thesis by simp
  next
    case False
    with Cons.prems have x: "x \<in> set xs" by simp
    with Cons.prems have "f a \<noteq> f x" by auto
    moreover from Cons x have "filter (\<lambda>y. f y = f x) xs = [x]" by simp
    ultimately show ?thesis by simp
  qed
qed

lemma latest_distinct:
  "distinct (map Field xs) \<Longrightarrow> x \<in> set xs \<Longrightarrow> latest xs (Field x) = x"
  by (simp add: latest_def filter_unique)

lemma latest_snoc:
  "latest (xs @ [ch]) f = (if f = Field ch then ch else latest xs f)"
  by (simp add: latest_def)

lemma Field_latest:
  "f \<in> set (map Field xs) \<Longrightarrow> Field (latest xs f) = f"
proof -
  assume "f \<in> set (map Field xs)"
  then have ne: "filter (\<lambda>ch. Field ch = f) xs \<noteq> []" by (auto simp: filter_empty_conv)
  then have "last (filter (\<lambda>ch. Field ch = f) xs) \<in> set (filter (\<lambda>ch. Field ch = f) xs)"
    by (rule last_in_set)
  then show ?thesis by (simp add: latest_def)
qed

lemma foldl_upsert:
  assumes "distinct (map Field xs)"
  shows "foldl upsert xs chs = map (latest (xs @ chs)) (first_seen (map Field (xs @ chs)))"
proof (induction chs rule: rev_induct)
  case Nil
  from assms have "map (latest xs) (map Field xs) = xs"
    by (simp add: map_idI latest_distinct)
  with assms show ?case by (simp add: first_seen_distinct)
next
  case (snoc ch chs)
  let ?zs = "xs @ chs"
  let ?F = "first_seen (map Field ?zs)"
  note ls = latest_snoc[of "xs @ chs", simplified]
  note fs = first_seen_snoc[of "map Field (xs @ chs)" "Field ch"]
  have L: "foldl upsert xs chs = map (latest ?zs) ?F" by (rule snoc.IH)
  have setL: "set (map Field (map (latest ?zs) ?F)) = set (map Field ?zs)"
  proof -
    have "map (\<lambda>g. Field (latest ?zs g)) ?F = ?F"
    proof (rule map_idI)
      fix g assume "g \<in> set ?F"
      then have "g \<in> set (map Field ?zs)" by (simp only: set_first_seen)
      then show "Field (latest ?zs g) = g" by (rule Field_latest)
    qed
    then have "map Field (map (latest ?zs) ?F) = ?F" by (simp only: map_map o_def)
    then show ?thesis by (simp only: set_first_seen)
  qed
  have step: "foldl upsert xs (chs @ [ch]) = upsert (map (latest ?zs) ?F) ch"
    by (simp only: foldl_append foldl.simps L)
  have goal: "upsert (map (latest ?zs) ?F) ch
      = map (latest (?zs @ [ch])) (first_seen (map Field (?zs @ [ch])))"
  proof (cases "Field ch \<in> set (map Field ?zs)")
    case True
    then have "Field ch \<in> set (map Field (map (latest ?zs) ?F))" by (simp only: setL)
    then have u: "upsert (map (latest ?zs) ?F) ch
        = map (\<lambda>x. if Field x = Field ch then ch else x) (map (latest ?zs) ?F)"
      by (simp only: upsert_def if_True)
    have "map (\<lambda>x. if Field x = Field ch then ch else x) (map (latest ?zs) ?F)
        = map (latest (?zs @ [ch])) ?F"
      unfolding map_map o_def
    proof (rule map_cong[OF refl])
      fix g assume "g \<in> set ?F"
      then have "g \<in> set (map Field ?zs)" by (simp only: set_first_seen)
      then have "Field (latest ?zs g) = g" by (rule Field_latest)
      then show "(if Field (latest ?zs g) = Field ch then ch else latest ?zs g) = latest (?zs @ [ch]) g"
        by (simp add: ls)
    qed
    moreover have "first_seen (map Field (?zs @ [ch])) = ?F"
      using True fs by simp
    ultimately show ?thesis by (simp only: u)
  next
    case False
    then have "Field ch \<notin> set (map Field (map (latest ?zs) ?F))"
      unfolding setL by assumption
    then have u: "upsert (map (latest ?zs) ?F) ch = map (latest ?zs) ?F @ [ch]"
      by (simp only: upsert_def if_False)
    have lc: "latest (?zs @ [ch]) (Field ch) = ch" by (simp add: ls)
    have e1: "map (latest (?zs @ [ch])) ?F = map (latest ?zs) ?F"
    proof (rule map_cong[OF refl])
      fix g assume "g \<in> set ?F"
      then have "g \<in> set (map Field ?zs)" by (simp only: set_first_seen)
      with False have "g \<noteq> Field ch" by auto
      then show "latest (?zs @ [ch]) g = latest ?zs g" by (simp add: ls)
    qed
    have e2: "first_seen (map Field (?zs @ [ch])) = ?F @ [Field ch]"
      using False fs by simp
    have "map (latest (?zs @ [ch])) (first_seen (map Field (?zs @ [ch])))
        = map (latest (?zs @ [ch])) (?F @ [Field ch])" by (simp only: e2)
    also have "\<dots> = map (latest (?zs @ [ch])) ?F @ [latest (?zs @ [ch]) (Field ch)]"
      by (rule trans[OF map_append]) simp
    also have "\<dots> = map (latest ?zs) ?F @ [ch]" by (simp only: e1 lc)
    finally show ?thesis by (simp only: u)
  qed
  show ?case by (simp only: step goal append_assoc)
qed

lemma Set_all:
  assumes "in_sync c"
  shows "\<exists>c'. build_all (map Change_Build chs) c = Inr c' \<and> in_sync c' \<and>
           Changes c' = foldl upsert (Changes c) chs \<and>
           (\<forall>f i. map_get (Fields c) f = Some i \<longrightarrow> map_get (Fields c') f = Some i)"
  using assms
proof (induction chs arbitrary: c)
  case Nil
  then show ?case by simp
next
  case (Cons ch chs)
  from Set_upsert[OF Cons.prems, of ch] obtain c1 where
    c1: "Changes_Set c ch = Inr c1" "Changes c1 = upsert (Changes c) ch"
        "\<forall>f i. map_get (Fields c) f = Some i \<longrightarrow> map_get (Fields c1) f = Some i"
    by blast
  from Set_in_sync[OF Cons.prems c1(1)] have s1: "in_sync c1" .
  from Cons.IH[OF s1] obtain c' where
    c': "build_all (map Change_Build chs) c1 = Inr c'" "in_sync c'"
        "Changes c' = foldl upsert (Changes c1) chs"
        "\<forall>f i. map_get (Fields c1) f = Some i \<longrightarrow> map_get (Fields c') f = Some i"
    by blast
  have "build_all (map Change_Build (ch # chs)) c = Inr c'"
    using c1(1) c'(1) by (simp add: Change_Build_def)
  moreover have "Changes c' = foldl upsert (Changes c) (ch # chs)"
    using c1(2) c'(3) by simp
  moreover have "\<forall>f i. map_get (Fields c) f = Some i \<longrightarrow> map_get (Fields c') f = Some i"
    using c1(3) c'(4) by blast
  ultimately show ?case using c'(2) by blast
qed

lemma appendAssoc_in_sync:
  assumes "in_sync c" "appendAssoc c fld ac = Inr c'"
  shows "in_sync c'"
proof -
  from assms(1) have al: "allocated c" and fs: "fields_sync c" and as: "assoc_sync c" and ix: "indexed c"
    by (simp_all add: in_sync_def)
  from al obtain a where a: "Assoc c = Some a" by (auto simp: allocated_def)
  with assms(2) have c': "c' = MkChanges (Fields c) (Changes c)
      (Some (a(fld \<mapsto> int (length (AssocChanges c))))) (AssocChanges c @ [ac]) (constraints c)"
    by (simp add: appendAssoc_def map_put_def)
  have "assoc_sync c'" unfolding assoc_sync_def
  proof (intro allI impI)
    fix f i assume h: "map_get (Assoc c') f = Some i"
    show "in_range i (AssocChanges c')"
    proof (cases "f = fld")
      case True
      with h c' show ?thesis by (simp add: map_get_def in_range_def)
    next
      case False
      with h c' a have "map_get (Assoc c) f = Some i" by (simp add: map_get_def)
      with as have "in_range i (AssocChanges c)" unfolding assoc_sync_def by blast
      then show ?thesis using c' by (simp add: in_range_def)
    qed
  qed
  moreover have "allocated c'" using al c' by (simp add: allocated_def)
  moreover have "fields_sync c'" using fs c' by (simp add: fields_sync_def)
  moreover have "indexed c'" using ix c' by (simp add: indexed_def)
  ultimately show ?thesis by (simp add: in_sync_def)
qed

lemma replaceAssoc_in_sync:
  assumes "in_sync c"
  shows "in_sync (MkChanges (Fields c) (Changes c) (Assoc c) ((AssocChanges c)[n := ac]) (constraints c))"
  using assms
  by (simp add: in_sync_def allocated_def fields_sync_def assoc_sync_def indexed_def in_range_def)

lemma SetAssoc_in_sync:
  assumes "in_sync c" "Changes_SetAssoc c fld chs = Inr c'"
  shows "in_sync c'"
proof (cases "map_get (Assoc c) fld")
  case None
  with assms(2) have "appendAssoc c fld (MkAssocChanges chs None) = Inr c'"
    by (simp add: Changes_SetAssoc_def)
  with assms(1) show ?thesis by (rule appendAssoc_in_sync)
next
  case (Some i)
  with assms(2) have "c' = MkChanges (Fields c) (Changes c) (Assoc c)
      ((AssocChanges c)[nat i := MkAssocChanges chs (StaleIDs (AssocChanges c ! nat i))]) (constraints c)"
    by (simp add: Changes_SetAssoc_def split: if_splits)
  with assms(1) show ?thesis by (simp add: replaceAssoc_in_sync)
qed

lemma SetStaleAssoc_in_sync:
  assumes "in_sync c" "Changes_SetStaleAssoc c fld ids = Inr c'"
  shows "in_sync c'"
proof (cases "map_get (Assoc c) fld")
  case None
  with assms(2) have "appendAssoc c fld (MkAssocChanges [] ids) = Inr c'"
    by (simp add: Changes_SetStaleAssoc_def)
  with assms(1) show ?thesis by (rule appendAssoc_in_sync)
next
  case (Some i)
  with assms(2) have "c' = MkChanges (Fields c) (Changes c) (Assoc c)
      ((AssocChanges c)[nat i := MkAssocChanges (AssocChanges_Changes (AssocChanges c ! nat i)) ids]) (constraints c)"
    by (simp add: Changes_SetStaleAssoc_def split: if_splits)
  with assms(1) show ?thesis by (simp add: replaceAssoc_in_sync)
qed

lemma reachable_in_sync: "reachable c \<Longrightarrow> in_sync c"
proof (induction rule: reachable.induct)
  case (fresh z c)
  then show ?case by (auto simp: BuildChanges_def in_sync_fresh)
next
  case (by_Set c ch c')
  then show ?case by (blast intro: Set_in_sync)
next
  case (by_SetAssoc c fld chs c')
  then show ?case by (blast intro: SetAssoc_in_sync)
next
  case (by_SetStaleAssoc c fld ids c')
  then show ?case by (blast intro: SetStaleAssoc_in_sync)
qed

lemma SetStaleAssoc_total:
  assumes "in_sync c"
  shows "\<exists>c'. Changes_SetStaleAssoc c fld ids = Inr c'"
proof (cases "map_get (Assoc c) fld")
  case None
  from assms have "Assoc c \<noteq> None" by (simp add: in_sync_def allocated_def)
  with None show ?thesis
    by (auto simp: Changes_SetStaleAssoc_def appendAssoc_def map_put_def)
next
  case (Some i)
  with assms have "in_range i (AssocChanges c)" by (auto simp: in_sync_def assoc_sync_def)
  with Some show ?thesis by (simp add: Changes_SetStaleAssoc_def)
qed

lemma SetAssoc_total:
  assumes "in_sync c"
  shows "\<exists>c'. Changes_SetAssoc c fld chs = Inr c'"
proof (cases "map_get (Assoc c) fld")
  case None
  from assms have "Assoc c \<noteq> None" by (simp add: in_sync_def allocated_def)
  with None show ?thesis
    by (auto simp: Changes_SetAssoc_def appendAssoc_def map_put_def)
next
  case (Some i)
  with assms have "in_range i (AssocChanges c)" by (auto simp: in_sync_def assoc_sync_def)
  with Some show ?thesis by (simp add: Changes_SetAssoc_def)
qed

subsection \<open>Claims on the Change Log\<close>

text \<open>
  C1. For every Change Log in sync and every sequence of \<open>Set\<close> operations, the operations
  succeed and leave a log in sync whose ordered sequence lists the fields in the order of
  their first insertion, each with the change of its latest \<open>Set\<close>; a field that was present
  keeps its position, and a \<open>Set\<close> of it overwrites the change at that position and nothing
  else. In particular the log built from \<open>Set("name", "Ann")\<close>, \<open>Inc("age")\<close>,
  \<open>Set("name", "Bob")\<close> has exactly the two entries name = Bob and age incremented by 1, in
  this order.
\<close>

theorem Set_keeps_first_insertion_order:
  "(in_sync c \<longrightarrow>
      (\<exists>c'. build_all (map Change_Build chs) c = Inr c' \<and> in_sync c' \<and>
         Changes c' =
           map (latest (Changes c @ chs)) (first_seen (map Field (Changes c @ chs))) \<and>
         (\<forall>f i. map_get (Fields c) f = Some i \<longrightarrow> map_get (Fields c') f = Some i)) \<and>
      (\<forall>i. map_get (Fields c) (Field ch) = Some i \<longrightarrow>
         Changes_Set c ch =
           Inr (MkChanges (Fields c) ((Changes c)[nat i := ch]) (Assoc c) (AssocChanges c)
                  (constraints c)))) \<and>
   (\<exists>c'. BuildChanges z [Change_Build (Set ''name'' ann), Change_Build (Inc ''age''),
                          Change_Build (Set ''name'' bob)] = Inr c' \<and>
         Changes c' = [Set ''name'' bob, IncBy ''age'' 1] \<and>
         map_get (Fields c') ''name'' = Some 0 \<and> map_get (Fields c') ''age'' = Some 1)"
proof (intro conjI impI allI)
  assume s: "in_sync c"
  from Set_all[OF s, of chs] obtain c' where
    c': "build_all (map Change_Build chs) c = Inr c'" "in_sync c'"
        "Changes c' = foldl upsert (Changes c) chs"
        "\<forall>f i. map_get (Fields c) f = Some i \<longrightarrow> map_get (Fields c') f = Some i"
    by blast
  from in_sync_distinct[OF s] have
    "foldl upsert (Changes c) chs =
       map (latest (Changes c @ chs)) (first_seen (map Field (Changes c @ chs)))"
    by (rule foldl_upsert)
  with c' show "\<exists>c'. build_all (map Change_Build chs) c = Inr c' \<and> in_sync c' \<and>
       Changes c' =
         map (latest (Changes c @ chs)) (first_seen (map Field (Changes c @ chs))) \<and>
       (\<forall>f i. map_get (Fields c) f = Some i \<longrightarrow> map_get (Fields c') f = Some i)"
    by auto
next
  fix i assume "in_sync c" "map_get (Fields c) (Field ch) = Some i"
  then show "Changes_Set c ch =
      Inr (MkChanges (Fields c) ((Changes c)[nat i := ch]) (Assoc c) (AssocChanges c)
             (constraints c))"
    by (rule Set_present)
next
  show "\<exists>c'. BuildChanges z [Change_Build (Set ''name'' ann), Change_Build (Inc ''age''),
                          Change_Build (Set ''name'' bob)] = Inr c' \<and>
         Changes c' = [Set ''name'' bob, IncBy ''age'' 1] \<and>
         map_get (Fields c') ''name'' = Some 0 \<and> map_get (Fields c') ''age'' = Some 1"
    by (simp add: BuildChanges_def Change_Build_def Changes_Set_def map_get_def map_put_def
        in_range_def Set_def Inc_def IncBy_def)
qed

theorem Set_keeps_first_insertion_order_witness:
  "in_sync example_log \<and>
   map_get (Fields example_log) ''name'' = Some 0 \<and>
   (\<exists>c'. build_all (map Change_Build
             [Inc ''age'', Set ''name'' (Some (TString, VString ''Bob''))]) example_log = Inr c' \<and>
          Changes c' = [Set ''name'' (Some (TString, VString ''Bob'')), IncBy ''age'' 1] \<and>
          length (Changes c') = 2 \<and>
          map_get (Fields c') ''name'' = Some 0) \<and>
   (\<exists>c'. Changes_Set example_log (Set ''name'' (Some (TString, VString ''Bob''))) = Inr c' \<and>
          Changes c' = [Set ''name'' (Some (TString, VString ''Bob''))])"
proof -
  have s: "in_sync example_log"
    by (simp add: in_sync_def allocated_def fields_sync_def assoc_sync_def indexed_def
        example_log_def map_get_def in_range_def Set_def)
  have k: "map_get (Fields example_log) ''name'' = Some 0"
    by (simp add: example_log_def map_get_def)
  let ?bob = "Set ''name'' (Some (TString, VString ''Bob''))"
  let ?chs = "[Inc ''age'', ?bob]"
  note t = Set_keeps_first_insertion_order[of example_log ?chs ?bob, THEN conjunct1, THEN mp, OF s]
  from t obtain c' where c': "build_all (map Change_Build ?chs) example_log = Inr c'"
    "Changes c' = map (latest (Changes example_log @ ?chs))
                    (first_seen (map Field (Changes example_log @ ?chs)))"
    "\<forall>f i. map_get (Fields example_log) f = Some i \<longrightarrow> map_get (Fields c') f = Some i"
    by blast
  have "map (latest (Changes example_log @ ?chs))
            (first_seen (map Field (Changes example_log @ ?chs)))
      = [?bob, IncBy ''age'' 1]"
    by (simp add: example_log_def latest_def Set_def Inc_def IncBy_def)
  with c' k have a: "\<exists>c'. build_all (map Change_Build ?chs) example_log = Inr c' \<and>
       Changes c' = [?bob, IncBy ''age'' 1] \<and> length (Changes c') = 2 \<and>
       map_get (Fields c') ''name'' = Some 0"
    by auto
  have f: "Field ?bob = ''name''" by (simp add: Set_def)
  from t k f have "Changes_Set example_log ?bob =
      Inr (MkChanges (Fields example_log) ((Changes example_log)[nat 0 := ?bob])
             (Assoc example_log) (AssocChanges example_log) (constraints example_log))"
    by simp
  then have b: "\<exists>c'. Changes_Set example_log ?bob = Inr c' \<and> Changes c' = [?bob]"
    by (simp add: example_log_def)
  from s k a b show ?thesis by blast
qed

text \<open>
  C2. Every log reachable from a freshly built one by \<open>Set\<close>, \<open>SetAssoc\<close> and
  \<open>SetStaleAssoc\<close> has every key of \<open>Fields\<close> as a valid index into \<open>Changes\<close>, with that key
  as the field of the change stored there, and every key of \<open>Assoc\<close> as a valid index into
  \<open>AssocChanges\<close>.
\<close>

theorem reachable_index_invariant:
  assumes "reachable c"
  shows "(\<forall>f i. map_get (Fields c) f = Some i \<longrightarrow>
            in_range i (Changes c) \<and> Field (Changes c ! nat i) = f) \<and>
         (\<forall>f i. map_get (Assoc c) f = Some i \<longrightarrow> in_range i (AssocChanges c))"
proof -
  from assms have "in_sync c" by (rule reachable_in_sync)
  then have "fields_sync c" "assoc_sync c" by (simp_all add: in_sync_def)
  then show ?thesis unfolding fields_sync_def assoc_sync_def by simp
qed

theorem reachable_index_invariant_witness:
  "reachable example_log \<and>
   map_get (Fields example_log) ''name'' = Some 0 \<and>
   in_range 0 (Changes example_log) \<and> Field (Changes example_log ! nat 0) = ''name'' \<and>
   map_get (Assoc example_log) ''tags'' = Some 0 \<and>
   in_range 0 (AssocChanges example_log)"
proof -
  have r0: "reachable fresh_log"
    by (rule reachable.fresh[of "()"]) (simp add: BuildChanges_def fresh_log_def)
  have "Changes_Set fresh_log (Set ''name'' (Some (TString, VString ''Ann''))) =
          Inr (MkChanges (Some (Map.empty(''name'' \<mapsto> 0)))
                 [Set ''name'' (Some (TString, VString ''Ann''))] (Some Map.empty) [] ())"
    by (simp add: Changes_Set_def fresh_log_def map_get_def map_put_def Set_def)
  with r0 have r1: "reachable (MkChanges (Some (Map.empty(''name'' \<mapsto> 0)))
                 [Set ''name'' (Some (TString, VString ''Ann''))] (Some Map.empty) [] ())"
    by (rule reachable.by_Set)
  have "Changes_SetAssoc (MkChanges (Some (Map.empty(''name'' \<mapsto> 0)))
                 [Set ''name'' (Some (TString, VString ''Ann''))] (Some Map.empty) [] ())
            ''tags'' [fresh_log] =
          Inr (MkChanges (Some (Map.empty(''name'' \<mapsto> 0)))
                 [Set ''name'' (Some (TString, VString ''Ann''))]
                 (Some (Map.empty(''tags'' \<mapsto> 0))) [MkAssocChanges [fresh_log] None] ())"
    by (simp add: Changes_SetAssoc_def appendAssoc_def map_get_def map_put_def)
  with r1 have r2: "reachable (MkChanges (Some (Map.empty(''name'' \<mapsto> 0)))
                 [Set ''name'' (Some (TString, VString ''Ann''))]
                 (Some (Map.empty(''tags'' \<mapsto> 0))) [MkAssocChanges [fresh_log] None] ())"
    by (rule reachable.by_SetAssoc)
  have "Changes_SetStaleAssoc (MkChanges (Some (Map.empty(''name'' \<mapsto> 0)))
                 [Set ''name'' (Some (TString, VString ''Ann''))]
                 (Some (Map.empty(''tags'' \<mapsto> 0))) [MkAssocChanges [fresh_log] None] ())
            ''tags'' (Some []) = Inr example_log"
    by (simp add: Changes_SetStaleAssoc_def map_get_def in_range_def example_log_def)
  with r2 have r: "reachable example_log" by (rule reachable.by_SetStaleAssoc)
  have k: "map_get (Fields example_log) ''name'' = Some 0"
    "map_get (Assoc example_log) ''tags'' = Some 0"
    by (simp_all add: example_log_def map_get_def)
  from reachable_index_invariant[OF r] k
  have "in_range 0 (Changes example_log) \<and> Field (Changes example_log ! nat 0) = ''name''"
    "in_range 0 (AssocChanges example_log)"
    by blast+
  with r k show ?thesis by simp
qed

text \<open>
  C9. For every Change Log whose \<open>Assoc\<close> map is allocated and in sync with \<open>AssocChanges\<close>,
  and every association field: after \<open>SetStaleAssoc\<close> with \<open>ids\<close>, \<open>GetAssoc\<close> of the field
  reports found and returns an association change set whose \<open>StaleIDs\<close> is \<open>ids\<close>: nil is
  read back as nil, an empty sequence as an empty sequence.
\<close>

theorem SetStaleAssoc_then_GetAssoc:
  assumes "Assoc c \<noteq> None" and "assoc_sync c"
  shows "\<exists>c' ac. Changes_SetStaleAssoc c fld ids = Inr c' \<and>
            Changes_GetAssoc c' fld = Inr (ac, True) \<and> StaleIDs ac = ids"
proof (cases "map_get (Assoc c) fld")
  case None
  from assms(1) obtain a where a: "Assoc c = Some a" by auto
  with None show ?thesis
    by (simp add: Changes_SetStaleAssoc_def appendAssoc_def map_put_def
        Changes_GetAssoc_def map_get_def in_range_def)
next
  case (Some i)
  with assms(2) have r: "in_range i (AssocChanges c)" by (auto simp: assoc_sync_def)
  then have "nat i < length (AssocChanges c)" by (rule in_range_nat)
  with Some r show ?thesis
    by (simp add: Changes_SetStaleAssoc_def Changes_GetAssoc_def in_range_def)
qed

theorem SetStaleAssoc_then_GetAssoc_witness:
  "Assoc fresh_log \<noteq> None \<and> assoc_sync fresh_log \<and>
   Assoc example_log \<noteq> None \<and> assoc_sync example_log \<and>
   (\<exists>c' ac. Changes_SetStaleAssoc fresh_log ''tags'' None = Inr c' \<and>
       Changes_GetAssoc c' ''tags'' = Inr (ac, True) \<and> StaleIDs ac = None) \<and>
   (\<exists>c' ac. Changes_SetStaleAssoc example_log ''tags'' (Some []) = Inr c' \<and>
       Changes_GetAssoc c' ''tags'' = Inr (ac, True) \<and> StaleIDs ac = Some [])"
proof -
  have a: "Assoc fresh_log \<noteq> None" "assoc_sync fresh_log"
    by (simp_all add: fresh_log_def assoc_sync_def map_get_def)
  have b: "Assoc example_log \<noteq> None" "assoc_sync example_log"
    by (simp_all add: example_log_def assoc_sync_def map_get_def in_range_def)
  from SetStaleAssoc_then_GetAssoc[OF a, of "''tags''" None]
       SetStaleAssoc_then_GetAssoc[OF b, of "''tags''" "Some []"] a b
  show ?thesis by blast
qed

section \<open>Properties of preloading\<close>






subsection \<open>collectPreloadTarget\<close>

lemma get_set_same:
  "get_path v p \<noteq> None \<Longrightarrow> get_path (set_path v p x) p = Some x"
  by (induction v p x rule: set_path.induct) (auto split: if_splits)



lemma load_Set_same_place:
  "load s v \<noteq> None \<Longrightarrow> base w = base v \<Longrightarrow> path w = path v \<Longrightarrow>
   load (Value_Set s v x) w = Some x"
  by (auto simp: load_def Value_Set_def get_set_same split: option.splits)


lemma Set_other_base:
  "a \<noteq> base v \<Longrightarrow> Value_Set s v x a = s a"
  by (simp add: Value_Set_def split: option.splits)

lemma load_Set_other_base:
  "base w \<noteq> base v \<Longrightarrow> load (Value_Set s v x) w = load s w"
  by (simp add: load_def Set_other_base)
























end
